theory Spec2Isabelle
  imports Main "HOL-Library.Sublist"
begin

section \<open>Strings of the program\<close>

text \<open>
  The program works on Python \<^verbatim>\<open>str\<close> values: sequences of Unicode code points. A
  code point is a natural number, a string is a list of them. ASCII text is written
  through \<open>ascii\<close>, everything else by its code points.
\<close>

type_synonym ustring = "nat list"

definition ascii :: "string \<Rightarrow> ustring" where
  "ascii cs = map of_char cs"

text \<open>The quote character \<^verbatim>\<open>"\<close> and the backslash.\<close>

abbreviation QUOTE :: nat where "QUOTE \<equiv> 34"
abbreviation BACKSLASH :: nat where "BACKSLASH \<equiv> 92"

section \<open>The regular expressions of the module \<^verbatim>\<open>re\<close> that the program uses\<close>

text \<open>
  A backtracking matcher in the order Python's engine tries things: the alternatives of
  \<open>|\<close> left to right, a greedy \<open>*\<close> first one more iteration and then none, a lazy
  \<open>*?\<close> the other way round. \<open>matches r s g\<close> lists, in that order, every way \<open>r\<close>
  matches a prefix of \<open>s\<close>: the text left over and the capture groups (the latest on
  top). The first element is the match Python reports. An iteration of a star that
  consumes nothing is dropped (no pattern of the program has one).
\<close>

datatype re =
    Atom "nat \<Rightarrow> bool"
  | Seq re re
  | Alt re re
  | Star re
  | LazyStar re
  | Group nat re

type_synonym caps = "(nat \<times> ustring) list"

function matches :: "re \<Rightarrow> ustring \<Rightarrow> caps \<Rightarrow> (ustring \<times> caps) list" where
  "matches (Atom p) s g = (case s of [] \<Rightarrow> [] | c # cs \<Rightarrow> if p c then [(cs, g)] else [])"
| "matches (Seq a b) s g = concat (map (\<lambda>(s', g'). matches b s' g') (matches a s g))"
| "matches (Alt a b) s g = matches a s g @ matches b s g"
| "matches (Star a) s g =
     concat (map (\<lambda>(s', g'). if length s' < length s then matches (Star a) s' g' else [])
                 (matches a s g)) @ [(s, g)]"
| "matches (LazyStar a) s g =
     (s, g) # concat (map (\<lambda>(s', g'). if length s' < length s then matches (LazyStar a) s' g' else [])
                 (matches a s g))"
| "matches (Group n a) s g =
     map (\<lambda>(s', g'). (s', (n, take (length s - length s') s) # g')) (matches a s g)"
  by pat_completeness auto
termination
  by (relation "measures [\<lambda>(r, s, g). size r, \<lambda>(r, s, g). length s]") auto

declare matches.simps [simp del]

abbreviation Chr :: "nat \<Rightarrow> re" where
  "Chr c \<equiv> Atom (\<lambda>x. x = c)"

definition Plus :: "re \<Rightarrow> re" where
  "Plus r = Seq r (Star r)"

text \<open>
  A match object: \<open>group(0)\<close>, the capture groups, and the text after the match.
\<close>

type_synonym mobj = "ustring \<times> caps \<times> ustring"

definition group0 :: "mobj \<Rightarrow> ustring" where
  "group0 m = fst m"

definition group :: "nat \<Rightarrow> mobj \<Rightarrow> ustring" where
  "group n m = (case map_of (fst (snd m)) n of Some x \<Rightarrow> x | None \<Rightarrow> [])"

text \<open>\<^verbatim>\<open>pattern.match\<close> at the start of \<open>s\<close>: the first way to match, if any.\<close>

definition re_match :: "re \<Rightarrow> ustring \<Rightarrow> mobj option" where
  "re_match r s =
     (case matches r s [] of
        [] \<Rightarrow> None
      | (rest, g) # _ \<Rightarrow> Some (take (length s - length rest) s, g, rest))"

text \<open>\<^verbatim>\<open>pattern.search\<close>: the match at the leftmost position that has one.\<close>

fun re_search :: "re \<Rightarrow> ustring \<Rightarrow> mobj option" where
  "re_search r [] = re_match r []"
| "re_search r (c # cs) =
     (case re_match r (c # cs) of Some m \<Rightarrow> Some m | None \<Rightarrow> re_search r cs)"

section \<open>Script detection (lines 16, 50-56)\<close>

text \<open>\<^verbatim>\<open>CYRILLIC_RE = re.compile(r'[\u0400-\u04FF]')\<close>\<close>

definition is_cyrillic :: "nat \<Rightarrow> bool" where
  "is_cyrillic c = (0x400 \<le> c \<and> c \<le> 0x4FF)"

definition CYRILLIC_RE :: re where
  "CYRILLIC_RE = Atom is_cyrillic"

definition looks_like_english :: "ustring \<Rightarrow> bool" where
  "looks_like_english s = (re_search CYRILLIC_RE s = None)"

definition needs_translation :: "ustring \<Rightarrow> bool" where
  "needs_translation s = (\<not> looks_like_english s)"

section \<open>String operations of Python\<close>

text \<open>
  \<^verbatim>\<open>s.replace(old, new)\<close>: every occurrence of \<open>old\<close>, found left to right and not
  overlapping, becomes \<open>new\<close>. With an empty \<open>old\<close> Python puts \<open>new\<close> before every
  character and at the end.
\<close>

function str_replace :: "ustring \<Rightarrow> ustring \<Rightarrow> ustring \<Rightarrow> ustring" where
  "str_replace old new s =
     (if old = [] then new @ concat (map (\<lambda>c. c # new) s)
      else if s = [] then []
      else if prefix old s then new @ str_replace old new (drop (length old) s)
      else hd s # str_replace old new (tl s))"
  by pat_completeness auto
termination
  by (relation "measure (\<lambda>(old, new, s). length s)") auto

declare str_replace.simps [simp del]

definition startswith :: "ustring \<Rightarrow> ustring \<Rightarrow> bool" where
  "startswith s p = prefix p s"

definition endswith :: "ustring \<Rightarrow> ustring \<Rightarrow> bool" where
  "endswith s p = suffix p s"

text \<open>\<^verbatim>\<open>str(n)\<close> of a non-negative integer, as the f-string of line 41 and 47 formats it.\<close>

fun str_nat :: "nat \<Rightarrow> ustring" where
  "str_nat n = (if n < 10 then [48 + n] else str_nat (n div 10) @ [48 + n mod 10])"

declare str_nat.simps [simp del]

text \<open>
  \<^verbatim>\<open>pattern.sub(repl, s)\<close> with a function \<open>repl\<close>: the text is scanned left to right;
  where the pattern matches, the result of \<open>repl\<close> on the match object is emitted and
  the scan goes on after the match; where it does not, the character is copied. After
  an empty match the next character is copied. \<open>repl\<close> may change a state (the list
  \<^verbatim>\<open>masks\<close> of line 38, the translation backend), which is threaded through.
\<close>

function re_sub ::
  "re \<Rightarrow> (mobj \<Rightarrow> 'w \<Rightarrow> ustring \<times> 'w) \<Rightarrow> ustring \<Rightarrow> 'w \<Rightarrow> ustring \<times> 'w" where
  "re_sub r repl s w =
     (case re_match r s of
        None \<Rightarrow>
          (case s of
             [] \<Rightarrow> ([], w)
           | c # cs \<Rightarrow> (let (out, w') = re_sub r repl cs w in (c # out, w')))
      | Some m \<Rightarrow>
          (let (o1, w1) = repl m w; rest = snd (snd m) in
           if length rest < length s
           then (let (o2, w2) = re_sub r repl rest w1 in (o1 @ o2, w2))
           else (case s of
                   [] \<Rightarrow> (o1, w1)
                 | c # cs \<Rightarrow> (let (o2, w2) = re_sub r repl cs w1 in (o1 @ c # o2, w2)))))"
  by pat_completeness auto
termination
  by (relation "measure (\<lambda>(r, repl, s, w). length s)") auto

declare re_sub.simps [simp del]

section \<open>Character classes\<close>

text \<open>
  \<^verbatim>\<open>\s\<close> in a pattern on \<^verbatim>\<open>str\<close>: the Unicode whitespace characters.
\<close>

definition is_space :: "nat \<Rightarrow> bool" where
  "is_space c =
     ((0x09 \<le> c \<and> c \<le> 0x0D) \<or> (0x1C \<le> c \<and> c \<le> 0x20) \<or> c = 0x85 \<or> c = 0xA0 \<or>
      c = 0x1680 \<or> (0x2000 \<le> c \<and> c \<le> 0x200A) \<or> c = 0x2028 \<or> c = 0x2029 \<or>
      c = 0x202F \<or> c = 0x205F \<or> c = 0x3000)"

text \<open>
  \<^verbatim>\<open>\d\<close> in a pattern on \<^verbatim>\<open>str\<close>: the digits 0 to 9 and the other decimal digits
  of Unicode (category Nd). That table belongs to the Python in use, not to the
  program; it is the parameter \<open>nd\<close>, consulted beyond ASCII only.
\<close>

definition is_digit :: "(nat \<Rightarrow> bool) \<Rightarrow> nat \<Rightarrow> bool" where
  "is_digit nd c = ((48 \<le> c \<and> c \<le> 57) \<or> (128 \<le> c \<and> nd c))"

text \<open>A table with no digit beyond ASCII, for evaluating on ASCII and Cyrillic text.\<close>

definition no_nd :: "nat \<Rightarrow> bool" where
  "no_nd c = False"

text \<open>\<^verbatim>\<open>.\<close> without DOTALL: any character but the newline.\<close>

definition dot :: "nat \<Rightarrow> bool" where
  "dot c = (c \<noteq> 10)"

text \<open>\<^verbatim>\<open>[a-zA-Z#0-9]\<close>\<close>

definition entity_char :: "nat \<Rightarrow> bool" where
  "entity_char c = ((97 \<le> c \<and> c \<le> 122) \<or> (65 \<le> c \<and> c \<le> 90) \<or> c = 35 \<or> (48 \<le> c \<and> c \<le> 57))"

section \<open>The patterns (lines 18-34)\<close>

text \<open>\<^verbatim>\<open>STRING_RE = re.compile(r'"(?:\\.|[^"\\])*"')\<close>\<close>

definition STRING_RE :: re where
  "STRING_RE =
     Seq (Chr QUOTE)
       (Seq (Star (Alt (Seq (Chr BACKSLASH) (Atom dot))
                       (Atom (\<lambda>c. c \<noteq> QUOTE \<and> c \<noteq> BACKSLASH))))
            (Chr QUOTE))"

text \<open>\<^verbatim>\<open>KV_VALUE_RE = re.compile(r'(:\s*)("(?:\\.|[^"\\])*")')\<close>\<close>

definition KV_VALUE_RE :: re where
  "KV_VALUE_RE = Seq (Group 1 (Seq (Chr 58) (Star (Atom is_space)))) (Group 2 STRING_RE)"

text \<open>
  The five entries of \<^verbatim>\<open>PLACEHOLDER_PATTERNS\<close>:
  \<^verbatim>\<open>%\d+\<close>, \<^verbatim>\<open>\{[^\}]*\}\<close>, \<^verbatim>\<open><[^>]*?>\<close>, \<^verbatim>\<open>&[a-zA-Z#0-9]+;\<close> and
  \<^verbatim>\<open>\[\s*[^|\]]+\s*\|\s*[^]]+\]\<close>.
\<close>

definition PAT_PERCENT :: "(nat \<Rightarrow> bool) \<Rightarrow> re" where
  "PAT_PERCENT nd = Seq (Chr 37) (Plus (Atom (is_digit nd)))"

definition PAT_BRACE :: re where
  "PAT_BRACE = Seq (Chr 123) (Seq (Star (Atom (\<lambda>c. c \<noteq> 125))) (Chr 125))"

definition PAT_TAG :: re where
  "PAT_TAG = Seq (Chr 60) (Seq (LazyStar (Atom (\<lambda>c. c \<noteq> 62))) (Chr 62))"

definition PAT_ENTITY :: re where
  "PAT_ENTITY = Seq (Chr 38) (Seq (Plus (Atom entity_char)) (Chr 59))"

definition PAT_PLURAL :: re where
  "PAT_PLURAL =
     Seq (Chr 91)
       (Seq (Star (Atom is_space))
          (Seq (Plus (Atom (\<lambda>c. c \<noteq> 124 \<and> c \<noteq> 93)))
             (Seq (Star (Atom is_space))
                (Seq (Chr 124)
                   (Seq (Star (Atom is_space))
                      (Seq (Plus (Atom (\<lambda>c. c \<noteq> 93))) (Chr 93)))))))"

text \<open>\<^verbatim>\<open>PLACEHOLDER_RE = re.compile('(' + '|'.join(PLACEHOLDER_PATTERNS) + ')')\<close>\<close>

definition PLACEHOLDER_RE :: "(nat \<Rightarrow> bool) \<Rightarrow> re" where
  "PLACEHOLDER_RE nd =
     Group 1 (Alt (PAT_PERCENT nd) (Alt PAT_BRACE (Alt PAT_TAG (Alt PAT_ENTITY PAT_PLURAL))))"

section \<open>Masking (lines 36-48)\<close>

text \<open>The f-string \<^verbatim>\<open>f'__MASK{i}__'\<close>.\<close>

definition mask_token :: "nat \<Rightarrow> ustring" where
  "mask_token i = ascii ''__MASK'' @ str_nat i @ ascii ''__''"

text \<open>
  \<^verbatim>\<open>_repl\<close> of \<open>mask_fragments\<close>: appends the match to \<^verbatim>\<open>masks\<close> and returns the
  token numbered \<^verbatim>\<open>len(masks)-1\<close>.
\<close>

definition repl_mask :: "mobj \<Rightarrow> ustring list \<Rightarrow> ustring \<times> ustring list" where
  "repl_mask m masks =
     (let masks' = masks @ [group0 m] in (mask_token (length masks' - 1), masks'))"

definition mask_fragments :: "(nat \<Rightarrow> bool) \<Rightarrow> ustring \<Rightarrow> ustring \<times> ustring list" where
  "mask_fragments nd s = re_sub (PLACEHOLDER_RE nd) repl_mask s []"

definition unmask_fragments :: "ustring \<Rightarrow> ustring list \<Rightarrow> ustring" where
  "unmask_fragments s masks =
     fold (\<lambda>(i, val) s. str_replace (mask_token i) val s) (enumerate 0 masks) s"

section \<open>Translating one literal (lines 102-129)\<close>

text \<open>
  The translators of lines 62-96 wrap external libraries; \<open>translate_value_literal\<close>
  takes the translate function as an argument, and so does the model. It is any
  callable: it may raise, and it may have effects, on a state \<open>'w\<close> that the model
  threads through.

  What can be raised: the \<^verbatim>\<open>assert\<close> of line 108 (assertions are on unless Python
  runs with \<^verbatim>\<open>-O\<close>), or whatever the translate function raised; the two are kept
  apart. Exceptions are those of class \<^verbatim>\<open>Exception\<close>; an interrupt of the process is
  not modelled.
\<close>

datatype 'e error = AssertionError | Raised 'e

type_synonym ('e, 'w) translator = "ustring \<Rightarrow> 'w \<Rightarrow> ('e + ustring) \<times> 'w"

text \<open>
  Lines 107-113: the assertion, \<^verbatim>\<open>literal[1:-1]\<close> and the un-escaping of \<^verbatim>\<open>\"\<close>.
\<close>

definition decode_literal :: "ustring \<Rightarrow> 'e error + ustring" where
  "decode_literal literal =
     (if \<not> (startswith literal [QUOTE] \<and> endswith literal [QUOTE]) then Inl AssertionError
      else (let inner = butlast (tl literal);
                inner_unescaped = str_replace [BACKSLASH, QUOTE] [QUOTE] inner
            in Inr inner_unescaped))"

text \<open>Lines 127-129: the escaping of \<^verbatim>\<open>"\<close> and the quotes put back.\<close>

definition encode_literal :: "ustring \<Rightarrow> ustring" where
  "encode_literal translated =
     (let translated_escaped = str_replace [QUOTE] [BACKSLASH, QUOTE] translated
      in [QUOTE] @ translated_escaped @ [QUOTE])"

definition translate_value_literal ::
  "(nat \<Rightarrow> bool) \<Rightarrow> ustring \<Rightarrow> ('e, 'w) translator \<Rightarrow> 'w \<Rightarrow> ('e error + ustring) \<times> 'w" where
  "translate_value_literal nd literal translate_func w =
     (case decode_literal literal of
        Inl e \<Rightarrow> (Inl e, w)
      | Inr inner_unescaped \<Rightarrow>
          if \<not> needs_translation inner_unescaped then (Inr literal, w)
          else (let (masked, masks) = mask_fragments nd inner_unescaped in
                case translate_func masked w of
                  (Inl e, w') \<Rightarrow> (Inl (Raised e), w')
                | (Inr translated, w') \<Rightarrow>
                    (Inr (encode_literal (unmask_fragments translated masks)), w')))"

section \<open>The text of a file (lines 150-159)\<close>

text \<open>
  \<^verbatim>\<open>_replace_value\<close>: the prefix and the literal of a match, the literal translated;
  \<^verbatim>\<open>except Exception\<close> puts the match back as it was.
\<close>

definition replace_value ::
  "(nat \<Rightarrow> bool) \<Rightarrow> ('e, 'w) translator \<Rightarrow> mobj \<Rightarrow> 'w \<Rightarrow> ustring \<times> 'w" where
  "replace_value nd translate_func m w =
     (let pfx = group 1 m; literal = group 2 m in
      case translate_value_literal nd literal translate_func w of
        (Inr t, w') \<Rightarrow> (pfx @ t, w')
      | (Inl e, w') \<Rightarrow> (pfx @ literal, w'))"

text \<open>\<^verbatim>\<open>new_text = KV_VALUE_RE.sub(_replace_value, text)\<close>\<close>

definition process_text ::
  "(nat \<Rightarrow> bool) \<Rightarrow> ('e, 'w) translator \<Rightarrow> ustring \<Rightarrow> 'w \<Rightarrow> ustring \<times> 'w" where
  "process_text nd translate_func text w =
     re_sub KV_VALUE_RE (replace_value nd translate_func) text w"

section \<open>Masking as the specification describes it\<close>

text \<open>
  The matches of a pattern in a text, found left to right and not overlapping, each
  with the unmatched text before it, and the unmatched text after the last one
  (what \<^verbatim>\<open>finditer\<close> yields, with the gaps).
\<close>

function split_matches :: "re \<Rightarrow> ustring \<Rightarrow> ustring \<Rightarrow> (ustring \<times> ustring) list \<times> ustring" where
  "split_matches r gap s =
     (case re_match r s of
        None \<Rightarrow>
          (case s of
             [] \<Rightarrow> ([], gap)
           | c # cs \<Rightarrow> split_matches r (gap @ [c]) cs)
      | Some m \<Rightarrow>
          (let rest = snd (snd m) in
           if length rest < length s
           then (let (ps, tail) = split_matches r [] rest in ((gap, group0 m) # ps, tail))
           else (case s of
                   [] \<Rightarrow> ([(gap, group0 m)], [])
                 | c # cs \<Rightarrow>
                     (let (ps, tail) = split_matches r [c] cs in ((gap, group0 m) # ps, tail)))))"
  by pat_completeness auto
termination
  by (relation "measure (\<lambda>(r, gap, s). length s)") auto

declare split_matches.simps [simp del]

text \<open>
  The text with the \<open>i\<close>-th match replaced by the token numbered \<open>i\<close> (counting from
  the given start), and the text with the matches themselves in place.
\<close>

fun tokens_in_place :: "nat \<Rightarrow> (ustring \<times> ustring) list \<Rightarrow> ustring \<Rightarrow> ustring" where
  "tokens_in_place i [] tail = tail"
| "tokens_in_place i ((gap, fragment) # ps) tail =
     gap @ mask_token i @ tokens_in_place (Suc i) ps tail"

fun fragments_in_place :: "(ustring \<times> ustring) list \<Rightarrow> ustring \<Rightarrow> ustring" where
  "fragments_in_place [] tail = tail"
| "fragments_in_place ((gap, fragment) # ps) tail = gap @ fragment @ fragments_in_place ps tail"

section \<open>Predicates used to state the properties\<close>

text \<open>
  A literal is well quoted when it begins and ends with the quote and every quote
  strictly inside is immediately preceded by a backslash.
\<close>

definition well_quoted :: "ustring \<Rightarrow> bool" where
  "well_quoted l =
     (startswith l [QUOTE] \<and> endswith l [QUOTE] \<and>
      (\<forall>i \<in> {1 ..< length l - 1}. l ! i = QUOTE \<longrightarrow> l ! (i - 1) = BACKSLASH))"

text \<open>The text contains the four letters \<^verbatim>\<open>MASK\<close> in a row.\<close>

definition mentions_MASK :: "ustring \<Rightarrow> bool" where
  "mentions_MASK s = sublist (ascii ''MASK'') s"

text \<open>
  \<open>unchanged_outside_values src out\<close>: the output is the input, character for
  character, except that where the pattern \<^verbatim>\<open>KV_VALUE_RE\<close> matches a prefix \<open>p\<close> and a
  literal \<open>l\<close> whose decoded value needs translation, the literal may have been replaced;
  the prefix stays.
\<close>

inductive unchanged_outside_values :: "ustring \<Rightarrow> ustring \<Rightarrow> bool" where
  finished: "unchanged_outside_values [] []"
| copied: "unchanged_outside_values s t \<Longrightarrow> unchanged_outside_values (c # s) (c # t)"
| translated:
    "re_match KV_VALUE_RE (p @ l @ s) = Some (p @ l, [(2, l), (1, p)], s) \<Longrightarrow>
     needs_translation (str_replace [BACKSLASH, QUOTE] [QUOTE] (butlast (tl l))) \<Longrightarrow>
     unchanged_outside_values s t \<Longrightarrow>
     unchanged_outside_values (p @ l @ s) (p @ l' @ t)"

text \<open>Patterns without capture groups, and patterns that cannot match the empty text.\<close>

fun nogroup :: "re \<Rightarrow> bool" where
  "nogroup (Atom p) = True"
| "nogroup (Seq a b) = (nogroup a \<and> nogroup b)"
| "nogroup (Alt a b) = (nogroup a \<and> nogroup b)"
| "nogroup (Star a) = nogroup a"
| "nogroup (LazyStar a) = nogroup a"
| "nogroup (Group n a) = False"

fun nonempty :: "re \<Rightarrow> bool" where
  "nonempty (Atom p) = True"
| "nonempty (Seq a b) = (nonempty a \<or> nonempty b)"
| "nonempty (Alt a b) = (nonempty a \<and> nonempty b)"
| "nonempty (Star a) = False"
| "nonempty (LazyStar a) = False"
| "nonempty (Group n a) = nonempty a"

section \<open>Example inputs and translators\<close>

text \<open>A translator that returns its argument, and one that always raises.\<close>

definition echo :: "(unit, unit) translator" where
  "echo x w = (Inr x, w)"

definition failing :: "(unit, unit) translator" where
  "failing x w = (Inl (), w)"

text \<open>A translator that answers \<^verbatim>\<open>ok\<close> to everything.\<close>

definition answering_ok :: "(unit, unit) translator" where
  "answering_ok x w = (Inr (ascii ''ok''), w)"

text \<open>A translator that answers in English and keeps the two tokens.\<close>

definition english_backend :: "(unit, unit) translator" where
  "english_backend x w = (Inr (ascii ''Hello __MASK0__, you have __MASK1__ items''), w)"

text \<open>
  The literal of the placeholder example in Russian,
  \<^verbatim>\<open>"Privet %1, u vas {count} elementov"\<close> written in Cyrillic (code points U+041F ...),
  and the text that masking it hands to the translator.
\<close>

definition hello_literal :: ustring where
  "hello_literal =
     [QUOTE] @ [1055, 1088, 1080, 1074, 1077, 1090] @ ascii '' %1, '' @
     [1091, 32, 1074, 1072, 1089] @ ascii '' {count} '' @
     [1101, 1083, 1077, 1084, 1077, 1085, 1090, 1086, 1074] @ [QUOTE]"

definition hello_masked :: ustring where
  "hello_masked =
     [1055, 1088, 1080, 1074, 1077, 1090] @ ascii '' __MASK0__, '' @
     [1091, 32, 1074, 1072, 1089] @ ascii '' __MASK1__ '' @
     [1101, 1083, 1077, 1084, 1077, 1085, 1090, 1086, 1074]"

section \<open>Properties\<close>

lemma search_cyrillic: "(re_search CYRILLIC_RE s = None) = (\<forall>c \<in> set s. \<not> is_cyrillic c)"
  by (induction s) (auto simp: re_match_def CYRILLIC_RE_def matches.simps(1))

lemma needs_translation_set: "needs_translation s = (\<exists>c \<in> set s. is_cyrillic c)"
  by (simp add: needs_translation_def looks_like_english_def search_cyrillic)

text \<open>
  C7: \<open>needs_translation\<close> is true exactly when the text has a character in the range
  U+0400 to U+04FF. It is a total function of its argument alone.
\<close>

theorem needs_translation_iff_cyrillic:
  "needs_translation text = (\<exists>c \<in> set text. 0x400 \<le> c \<and> c \<le> 0x4FF)"
  by (simp add: needs_translation_set is_cyrillic_def)

theorem needs_translation_iff_cyrillic_witness:
  "needs_translation [0x48, 0x434, 0x21] \<and> \<not> needs_translation [0x48, 0x69, 0x3FF, 0x500]"
  using needs_translation_iff_cyrillic [of "[0x48, 0x434, 0x21]"]
        needs_translation_iff_cyrillic [of "[0x48, 0x69, 0x3FF, 0x500]"]
  by simp

lemma str_replace_Nil: "old \<noteq> [] \<Longrightarrow> str_replace old new [] = []"
  by (simp add: str_replace.simps)

lemma str_replace_hit: "old \<noteq> [] \<Longrightarrow> str_replace old new (old @ s) = new @ str_replace old new s"
  by (subst str_replace.simps) simp

lemma str_replace_miss:
  "old \<noteq> [] \<Longrightarrow> \<not> prefix old (c # s) \<Longrightarrow> str_replace old new (c # s) = c # str_replace old new s"
  by (subst str_replace.simps) simp

lemma escape_Cons:
  "str_replace [QUOTE] [BACKSLASH, QUOTE] (c # x) =
     (if c = QUOTE then [BACKSLASH, QUOTE] else [c]) @ str_replace [QUOTE] [BACKSLASH, QUOTE] x"
  using str_replace_hit [of "[QUOTE]" "[BACKSLASH, QUOTE]" x]
        str_replace_miss [of "[QUOTE]" c x "[BACKSLASH, QUOTE]"]
  by auto

lemma escape_concat:
  "str_replace [QUOTE] [BACKSLASH, QUOTE] x =
     concat (map (\<lambda>c. if c = QUOTE then [BACKSLASH, QUOTE] else [c]) x)"
  by (induction x) (simp_all add: str_replace_Nil escape_Cons)

lemma escape_no_leading_quote: "\<not> prefix [QUOTE] (str_replace [QUOTE] [BACKSLASH, QUOTE] x)"
  by (cases x) (simp_all add: str_replace_Nil escape_Cons)

lemma unescape_escape:
  "str_replace [BACKSLASH, QUOTE] [QUOTE] (str_replace [QUOTE] [BACKSLASH, QUOTE] x) = x"
proof (induction x)
  case Nil
  then show ?case by (simp add: str_replace_Nil)
next
  case (Cons c x)
  show ?case
  proof (cases "c = QUOTE")
    case True
    then show ?thesis
      using str_replace_hit [of "[BACKSLASH, QUOTE]" "[QUOTE]" "str_replace [QUOTE] [BACKSLASH, QUOTE] x"] Cons.IH
      by (simp add: escape_Cons)
  next
    case False
    have "\<not> prefix [BACKSLASH, QUOTE] (c # str_replace [QUOTE] [BACKSLASH, QUOTE] x)"
      using escape_no_leading_quote [of x] by simp
    then show ?thesis
      using False Cons.IH by (simp add: escape_Cons str_replace_miss)
  qed
qed

lemma unescape_no_quote:
  "QUOTE \<notin> set y \<Longrightarrow> str_replace [BACKSLASH, QUOTE] [QUOTE] y = y"
proof (induction y)
  case Nil
  then show ?case by (simp add: str_replace_Nil)
next
  case (Cons c y)
  then have "\<not> prefix [BACKSLASH, QUOTE] (c # y)"
    by (cases y) auto
  with Cons show ?case by (simp add: str_replace_miss)
qed

lemma quoted_startswith: "startswith (QUOTE # y @ [QUOTE]) [QUOTE]"
  by (simp add: startswith_def)

lemma quoted_endswith: "endswith (QUOTE # y @ [QUOTE]) [QUOTE]"
  by (simp add: endswith_def suffix_def)

lemma decode_quoted:
  "decode_literal (QUOTE # y @ [QUOTE]) = Inr (str_replace [BACKSLASH, QUOTE] [QUOTE] y)"
  by (simp add: decode_literal_def quoted_startswith quoted_endswith butlast_append)

text \<open>
  C5: decoding the encoding of any logical string gives the string back, quotes
  included. Encoding puts a backslash before every quote and wraps the result in
  quotes; decoding a quoted text without \<^verbatim>\<open>\"\<close> only strips the quotes, so no other
  escape sequence is interpreted.
\<close>

theorem quote_round_trip:
  "decode_literal (encode_literal x) = Inr x \<and>
   encode_literal x =
     [QUOTE] @ concat (map (\<lambda>c. if c = QUOTE then [BACKSLASH, QUOTE] else [c]) x) @ [QUOTE] \<and>
   (QUOTE \<notin> set y \<longrightarrow> decode_literal ([QUOTE] @ y @ [QUOTE]) = Inr y)"
proof (intro conjI impI)
  show "decode_literal (encode_literal x) = Inr x"
    by (simp add: encode_literal_def decode_quoted unescape_escape)
  show "encode_literal x =
     [QUOTE] @ concat (map (\<lambda>c. if c = QUOTE then [BACKSLASH, QUOTE] else [c]) x) @ [QUOTE]"
    by (simp add: encode_literal_def escape_concat)
  show "decode_literal ([QUOTE] @ y @ [QUOTE]) = Inr y" if "QUOTE \<notin> set y"
    using that by (simp add: decode_quoted unescape_no_quote)
qed

theorem quote_round_trip_witness:
  "decode_literal (encode_literal [97, QUOTE, 98]) = Inr [97, QUOTE, 98] \<and>
   encode_literal [97, QUOTE, 98] = [QUOTE, 97, BACKSLASH, QUOTE, 98, QUOTE] \<and>
   QUOTE \<notin> set [97, BACKSLASH, 110, BACKSLASH, BACKSLASH] \<and>
   decode_literal [QUOTE, 97, BACKSLASH, 110, BACKSLASH, BACKSLASH, QUOTE]
     = Inr [97, BACKSLASH, 110, BACKSLASH, BACKSLASH]"
  using quote_round_trip [of "[97, QUOTE, 98]" "[97, BACKSLASH, 110, BACKSLASH, BACKSLASH]"]
  by simp

lemma decode_error_iff:
  "(decode_literal literal = Inl e) =
     (e = AssertionError \<and> \<not> (startswith literal [QUOTE] \<and> endswith literal [QUOTE]))"
  by (auto simp: decode_literal_def Let_def)

text \<open>
  C9: \<open>translate_value_literal\<close> fails with the assertion of line 108 exactly when
  the literal does not both start and end with the quote; it then returns at once,
  the translator not called and its state untouched.
\<close>

theorem format_error_iff:
  "(fst (translate_value_literal nd literal translate_func w) = Inl AssertionError)
     = (\<not> (startswith literal [QUOTE] \<and> endswith literal [QUOTE])) \<and>
   (\<not> (startswith literal [QUOTE] \<and> endswith literal [QUOTE]) \<longrightarrow>
      translate_value_literal nd literal translate_func w = (Inl AssertionError, w))"
  by (auto simp: translate_value_literal_def decode_literal_def Let_def
           split: sum.splits prod.splits)

theorem format_error_iff_witness:
  "\<not> (startswith [97, QUOTE] [QUOTE] \<and> endswith [97, QUOTE] [QUOTE]) \<and>
   translate_value_literal no_nd [97, QUOTE] echo () = (Inl AssertionError, ()) \<and>
   startswith [QUOTE, 97, QUOTE] [QUOTE] \<and> endswith [QUOTE, 97, QUOTE] [QUOTE] \<and>
   fst (translate_value_literal no_nd [QUOTE, 97, QUOTE] echo ()) \<noteq> Inl AssertionError"
  using format_error_iff [of no_nd "[97, QUOTE]" echo "()"]
        format_error_iff [of no_nd "[QUOTE, 97, QUOTE]" echo "()"]
  by (simp add: startswith_def endswith_def suffix_def)

text \<open>
  C3: when the unescaped form of \<open>s\<close> has no Cyrillic character, the quoted literal of
  \<open>s\<close> is returned as it is, whatever the translate function is; the state of the
  translator is the one before the call, so it was not invoked.
\<close>

theorem identity_without_cyrillic:
  assumes "\<forall>c \<in> set (str_replace [BACKSLASH, QUOTE] [QUOTE] s). \<not> is_cyrillic c"
  shows "translate_value_literal nd ([QUOTE] @ s @ [QUOTE]) translate_func w
           = (Inr ([QUOTE] @ s @ [QUOTE]), w)"
  using assms by (simp add: translate_value_literal_def decode_quoted needs_translation_set)


lemma escape_quotes_preceded:
  "i < length (str_replace [QUOTE] [BACKSLASH, QUOTE] x) \<Longrightarrow>
   str_replace [QUOTE] [BACKSLASH, QUOTE] x ! i = QUOTE \<Longrightarrow>
   0 < i \<and> str_replace [QUOTE] [BACKSLASH, QUOTE] x ! (i - 1) = BACKSLASH"
proof (induction x arbitrary: i)
  case Nil
  then show ?case by (simp add: str_replace_Nil)
next
  case (Cons c x)
  let ?e = "str_replace [QUOTE] [BACKSLASH, QUOTE] x"
  show ?case
  proof (cases "c = QUOTE")
    case True
    then have e: "str_replace [QUOTE] [BACKSLASH, QUOTE] (c # x) = BACKSLASH # QUOTE # ?e"
      by (simp add: escape_Cons)
    show ?thesis
    proof (cases "i < 2")
      case True
      with Cons.prems e show ?thesis by (cases i) auto
    next
      case False
      then obtain j where j: "i = Suc (Suc j)" by (metis less_2_cases_iff not0_implies_Suc)
      with Cons.prems e have "j < length ?e" "?e ! j = QUOTE" by auto
      from Cons.IH [OF this] have "0 < j" "?e ! (j - 1) = BACKSLASH" by auto
      with j e show ?thesis by (cases j) auto
    qed
  next
    case False
    then have e: "str_replace [QUOTE] [BACKSLASH, QUOTE] (c # x) = c # ?e"
      by (simp add: escape_Cons)
    from Cons.prems e False obtain j where j: "i = Suc j" by (cases i) auto
    with Cons.prems e have "j < length ?e" "?e ! j = QUOTE" by auto
    from Cons.IH [OF this] have "0 < j" "?e ! (j - 1) = BACKSLASH" by auto
    with j e show ?thesis by (cases j) auto
  qed
qed

lemma well_quoted_encode: "well_quoted (encode_literal x)"
proof -
  let ?e = "str_replace [QUOTE] [BACKSLASH, QUOTE] x"
  have "(QUOTE # ?e @ [QUOTE]) ! (i - 1) = BACKSLASH"
    if "1 \<le> i" "i < Suc (length ?e)" "(QUOTE # ?e @ [QUOTE]) ! i = QUOTE" for i
  proof -
    from that obtain j where j: "i = Suc j" "j < length ?e" by (cases i) auto
    with that have "?e ! j = QUOTE" by (simp add: nth_append)
    from escape_quotes_preceded [OF j(2) this] j show ?thesis
      by (cases j) (auto simp: nth_append)
  qed
  then show ?thesis
    by (auto simp: well_quoted_def encode_literal_def quoted_startswith quoted_endswith)
qed

lemma translate_value_literal_cases:
  assumes "translate_value_literal nd literal translate_func w = (Inr r, w')"
  defines "d \<equiv> str_replace [BACKSLASH, QUOTE] [QUOTE] (butlast (tl literal))"
  shows "startswith literal [QUOTE] \<and> endswith literal [QUOTE] \<and>
         ((r = literal \<and> w' = w \<and> \<not> needs_translation d) \<or>
          (needs_translation d \<and>
           (\<exists>t. translate_func (fst (mask_fragments nd d)) w = (Inr t, w') \<and>
                r = encode_literal (unmask_fragments t (snd (mask_fragments nd d))))))"
  using assms(1) unfolding d_def
  by (auto simp: translate_value_literal_def decode_literal_def
           split: sum.splits prod.splits if_splits)

text \<open>
  C10, as amended: for a literal that starts and ends with the quote and a translate
  function that returns, the result is well quoted provided the decoded value has a
  Cyrillic character or the literal was well quoted already (a literal without
  Cyrillic is returned as it came).
\<close>

theorem result_well_quoted:
  assumes "startswith literal [QUOTE]" and "endswith literal [QUOTE]"
    and "translate_value_literal nd literal translate_func w = (Inr r, w')"
    and "needs_translation (str_replace [BACKSLASH, QUOTE] [QUOTE] (butlast (tl literal)))
         \<or> well_quoted literal"
  shows "well_quoted r"
  using translate_value_literal_cases [OF assms(3)] assms(1,2,4)
  by (auto simp: decode_literal_def well_quoted_encode)

text \<open>
  C10 as stated fails: the literal \<^verbatim>\<open>"a"b"\<close> starts and ends with the quote, has no
  Cyrillic, and comes back unchanged with its bare inner quote.
\<close>

theorem unquoted_result_counterexample:
  "startswith [QUOTE, 97, QUOTE, 98, QUOTE] [QUOTE] \<and>
   endswith [QUOTE, 97, QUOTE, 98, QUOTE] [QUOTE] \<and>
   translate_value_literal no_nd [QUOTE, 97, QUOTE, 98, QUOTE] echo ()
     = (Inr [QUOTE, 97, QUOTE, 98, QUOTE], ()) \<and>
   \<not> well_quoted [QUOTE, 97, QUOTE, 98, QUOTE]"
  by code_simp


theorem result_well_quoted_witness:
  "startswith [QUOTE, 0x434, QUOTE, 98, QUOTE] [QUOTE] \<and>
   endswith [QUOTE, 0x434, QUOTE, 98, QUOTE] [QUOTE] \<and>
   translate_value_literal no_nd [QUOTE, 0x434, QUOTE, 98, QUOTE] echo ()
     = (Inr [QUOTE, 0x434, BACKSLASH, QUOTE, 98, QUOTE], ()) \<and>
   needs_translation (str_replace [BACKSLASH, QUOTE] [QUOTE] (butlast (tl [QUOTE, 0x434, QUOTE, 98, QUOTE]))) \<and>
   well_quoted [QUOTE, 0x434, BACKSLASH, QUOTE, 98, QUOTE]"
proof -
  have a: "startswith [QUOTE, 0x434, QUOTE, 98, QUOTE] [QUOTE]" by code_simp
  have b: "endswith [QUOTE, 0x434, QUOTE, 98, QUOTE] [QUOTE]" by code_simp
  have c: "translate_value_literal no_nd [QUOTE, 0x434, QUOTE, 98, QUOTE] echo ()
     = (Inr [QUOTE, 0x434, BACKSLASH, QUOTE, 98, QUOTE], ())" by code_simp
  have d: "needs_translation (str_replace [BACKSLASH, QUOTE] [QUOTE] (butlast (tl [QUOTE, 0x434, QUOTE, 98, QUOTE])))"
    by code_simp
  from result_well_quoted [OF a b c disjI1 [OF d]] a b c d show ?thesis by simp
qed

theorem identity_without_cyrillic_witness:
  "str_replace [BACKSLASH, QUOTE] [QUOTE] [72, BACKSLASH, QUOTE, 105] = [72, QUOTE, 105] \<and>
   \<not> is_cyrillic 72 \<and> \<not> is_cyrillic QUOTE \<and> \<not> is_cyrillic 105 \<and>
   translate_value_literal no_nd [QUOTE, 72, BACKSLASH, QUOTE, 105, QUOTE] failing ()
     = (Inr [QUOTE, 72, BACKSLASH, QUOTE, 105, QUOTE], ())"
proof -
  have r: "str_replace [BACKSLASH, QUOTE] [QUOTE] [72, BACKSLASH, QUOTE, 105] = [72, QUOTE, 105]"
    by code_simp
  have a: "\<forall>c \<in> set (str_replace [BACKSLASH, QUOTE] [QUOTE] [72, BACKSLASH, QUOTE, 105]). \<not> is_cyrillic c"
    by (simp add: r is_cyrillic_def)
  from identity_without_cyrillic [OF a, of no_nd failing "()"] r show ?thesis
    by (simp add: is_cyrillic_def)
qed

text \<open>
  C4 as stated fails: with a translate function that always raises,
  \<open>translate_value_literal\<close> on a Cyrillic literal ends with that exception.
\<close>

theorem backend_failure_propagates_counterexample:
  "needs_translation (str_replace [BACKSLASH, QUOTE] [QUOTE] (butlast (tl [QUOTE, 0x434, QUOTE]))) \<and>
   translate_value_literal no_nd [QUOTE, 0x434, QUOTE] failing () = (Inl (Raised ()), ())"
  by code_simp

text \<open>
  C4, as amended: with a translate function that always raises,
  \<open>translate_value_literal\<close> on a quoted literal with Cyrillic passes the exception
  on, and \<^verbatim>\<open>_replace_value\<close>, which calls it for a match, catches it and returns the
  prefix and the literal unchanged.
\<close>

theorem backend_failure_caught:
  assumes raises: "\<forall>x w. \<exists>e w'. translate_func x w = (Inl e, w')"
    and quoted: "startswith literal [QUOTE]" "endswith literal [QUOTE]"
    and cyr: "needs_translation (str_replace [BACKSLASH, QUOTE] [QUOTE] (butlast (tl literal)))"
    and m: "group 2 m = literal"
  shows "(\<exists>e w'. translate_value_literal nd literal translate_func w = (Inl (Raised e), w')) \<and>
         fst (replace_value nd translate_func m w) = group 1 m @ literal"
proof -
  let ?d = "str_replace [BACKSLASH, QUOTE] [QUOTE] (butlast (tl literal))"
  obtain masked masks where mf: "mask_fragments nd ?d = (masked, masks)"
    by (cases "mask_fragments nd ?d")
  obtain e w' where tf: "translate_func masked w = (Inl e, w')"
    using raises by blast
  have tvl: "translate_value_literal nd literal translate_func w = (Inl (Raised e), w')"
    using quoted cyr by (simp add: translate_value_literal_def decode_literal_def mf tf)
  then have "fst (replace_value nd translate_func m w) = group 1 m @ literal"
    using m by (simp add: replace_value_def)
  with tvl show ?thesis by blast
qed

theorem backend_failure_caught_witness:
  "translate_value_literal no_nd [QUOTE, 0x434, QUOTE] failing () = (Inl (Raised ()), ()) \<and>
   fst (replace_value no_nd failing
          ([58, 32, QUOTE, 0x434, QUOTE], [(2, [QUOTE, 0x434, QUOTE]), (1, [58, 32])], []) ())
     = [58, 32, QUOTE, 0x434, QUOTE]"
proof -
  have a: "\<forall>x w. \<exists>e w'. failing x w = (Inl e, w')" by (simp add: failing_def)
  have b: "startswith [QUOTE, 0x434, QUOTE] [QUOTE]" by code_simp
  have c: "endswith [QUOTE, 0x434, QUOTE] [QUOTE]" by code_simp
  have d: "needs_translation (str_replace [BACKSLASH, QUOTE] [QUOTE] (butlast (tl [QUOTE, 0x434, QUOTE])))"
    by code_simp
  have e: "group 2 ([58, 32, QUOTE, 0x434, QUOTE], [(2, [QUOTE, 0x434, QUOTE]), (1, [58, 32])], [])
             = [QUOTE, 0x434, QUOTE]" by code_simp
  have f: "group 1 ([58, 32, QUOTE, 0x434, QUOTE], [(2, [QUOTE, 0x434, QUOTE]), (1, [58, 32])], [])
             = [58, 32]" by code_simp
  from backend_failure_caught [OF a b c d e, of no_nd "()"] f show ?thesis by simp
qed

lemma matches_suffix:
  "(s', g') \<in> set (matches r s g) \<Longrightarrow> suffix s' s"
proof (induction r s g arbitrary: s' g' rule: matches.induct)
  case (1 p s g)
  then show ?case by (cases s) (auto split: if_splits simp: suffix_Cons matches.simps(1))
next
  case (2 a b s g)
  from "2.prems" obtain s1 g1 where
    a: "(s1, g1) \<in> set (matches a s g)" and b: "(s', g') \<in> set (matches b s1 g1)"
    by (auto simp: matches.simps(2))
  from "2.IH"(1) [OF a] "2.IH"(2) [OF a refl b] show ?case
    by (rule suffix_order.trans [rotated])
next
  case (3 a b s g)
  then show ?case by (auto simp: matches.simps(3))
next
  case (4 a s g)
  from "4.prems" consider "(s', g') = (s, g)"
    | s1 g1 where "(s1, g1) \<in> set (matches a s g)" "length s1 < length s"
        "(s', g') \<in> set (matches (Star a) s1 g1)"
    by (subst (asm) matches.simps(4)) (auto split: if_splits)
  then show ?case
  proof cases
    case 1
    then show ?thesis by simp
  next
    case 2
    from "4.IH"(1) [OF 2(1)] "4.IH"(2) [OF 2(1) refl 2(2) 2(3)] show ?thesis
      by (rule suffix_order.trans [rotated])
  qed
next
  case (5 a s g)
  from "5.prems" consider "(s', g') = (s, g)"
    | s1 g1 where "(s1, g1) \<in> set (matches a s g)" "length s1 < length s"
        "(s', g') \<in> set (matches (LazyStar a) s1 g1)"
    by (subst (asm) matches.simps(5)) (auto split: if_splits)
  then show ?case
  proof cases
    case 1
    then show ?thesis by simp
  next
    case 2
    from "5.IH"(1) [OF 2(1)] "5.IH"(2) [OF 2(1) refl 2(2) 2(3)] show ?thesis
      by (rule suffix_order.trans [rotated])
  qed
next
  case (6 n a s g)
  then show ?case by (auto simp: matches.simps(6))
qed

lemma matches_nogroup:
  "nogroup r \<Longrightarrow> (s', g') \<in> set (matches r s g) \<Longrightarrow> g' = g"
proof (induction r s g arbitrary: s' g' rule: matches.induct)
  case (1 p s g)
  then show ?case by (cases s) (auto split: if_splits simp: matches.simps(1))
next
  case (2 a b s g)
  from "2.prems" obtain s1 g1 where
    a: "(s1, g1) \<in> set (matches a s g)" and b: "(s', g') \<in> set (matches b s1 g1)"
    by (auto simp: matches.simps(2))
  from "2.prems"(1) have na: "nogroup a" and nb: "nogroup b" by simp_all
  from "2.IH"(1) [OF na a] "2.IH"(2) [OF a refl nb b] show ?case by simp
next
  case (3 a b s g)
  then show ?case by (auto simp: matches.simps(3))
next
  case (4 a s g)
  from "4.prems"(1) have na: "nogroup a" by simp
  from "4.prems"(2) consider "(s', g') = (s, g)"
    | s1 g1 where "(s1, g1) \<in> set (matches a s g)" "length s1 < length s"
        "(s', g') \<in> set (matches (Star a) s1 g1)"
    by (subst (asm) matches.simps(4)) (auto split: if_splits)
  then show ?case
  proof cases
    case 1
    then show ?thesis by simp
  next
    case 2
    from "4.IH"(1) [OF na 2(1)] "4.IH"(2) [OF 2(1) refl 2(2) "4.prems"(1) 2(3)] show ?thesis
      by simp
  qed
next
  case (5 a s g)
  from "5.prems"(1) have na: "nogroup a" by simp
  from "5.prems"(2) consider "(s', g') = (s, g)"
    | s1 g1 where "(s1, g1) \<in> set (matches a s g)" "length s1 < length s"
        "(s', g') \<in> set (matches (LazyStar a) s1 g1)"
    by (subst (asm) matches.simps(5)) (auto split: if_splits)
  then show ?case
  proof cases
    case 1
    then show ?thesis by simp
  next
    case 2
    from "5.IH"(1) [OF na 2(1)] "5.IH"(2) [OF 2(1) refl 2(2) "5.prems"(1) 2(3)] show ?thesis
      by simp
  qed
next
  case (6 n a s g)
  then show ?case by simp
qed

lemma matches_length_le: "(s', g') \<in> set (matches r s g) \<Longrightarrow> length s' \<le> length s"
  by (drule matches_suffix) (rule suffix_length_le)

lemma matches_nonempty:
  "nonempty r \<Longrightarrow> (s', g') \<in> set (matches r s g) \<Longrightarrow> length s' < length s"
proof (induction r arbitrary: s g s' g')
  case (Atom p)
  then show ?case by (cases s) (auto split: if_splits simp: matches.simps(1))
next
  case (Seq a b)
  from Seq.prems(2) obtain s1 g1 where
    a: "(s1, g1) \<in> set (matches a s g)" and b: "(s', g') \<in> set (matches b s1 g1)"
    by (auto simp: matches.simps(2))
  from Seq.prems(1) have "nonempty a \<or> nonempty b" by simp
  then show ?case
  proof
    assume "nonempty a"
    from Seq.IH(1) [OF this a] matches_length_le [OF b] show ?thesis by simp
  next
    assume "nonempty b"
    from Seq.IH(2) [OF this b] matches_length_le [OF a] show ?thesis by simp
  qed
next
  case (Alt a b)
  then show ?case by (auto simp: matches.simps(3))
next
  case (Star a)
  then show ?case by simp
next
  case (LazyStar a)
  then show ?case by simp
next
  case (Group n a)
  then show ?case by (auto simp: matches.simps(6))
qed

lemma re_match_split:
  assumes "re_match r s = Some (m, g, rest)"
  shows "s = m @ rest \<and> (rest, g) \<in> set (matches r s [])"
proof -
  from assms have el: "(rest, g) \<in> set (matches r s [])"
    and m: "m = take (length s - length rest) s"
    by (auto simp: re_match_def split: list.splits)
  from matches_suffix [OF el] obtain x where x: "s = x @ rest" by (auto simp: suffix_def)
  with m have "m = x" by simp
  with x el show ?thesis by blast
qed

lemma re_match_nonempty:
  assumes "re_match r s = Some (m, g, rest)" and "nonempty r"
  shows "length rest < length s"
  using re_match_split [OF assms(1)] matches_nonempty [OF assms(2)] by blast

lemma re_sub_Nil_None: "re_match r [] = None \<Longrightarrow> re_sub r repl [] w = ([], w)"
  by (subst re_sub.simps) simp

lemma re_sub_Cons_None:
  "re_match r (c # cs) = None \<Longrightarrow>
   re_sub r repl (c # cs) w = (c # fst (re_sub r repl cs w), snd (re_sub r repl cs w))"
  by (subst re_sub.simps) (simp split: prod.splits)

lemma re_sub_Some:
  "re_match r s = Some (m, g, rest) \<Longrightarrow> length rest < length s \<Longrightarrow>
   re_sub r repl s w =
     (fst (repl (m, g, rest) w) @ fst (re_sub r repl rest (snd (repl (m, g, rest) w))),
      snd (re_sub r repl rest (snd (repl (m, g, rest) w))))"
  by (subst re_sub.simps) (simp split: prod.splits)

lemma nonempty_KV: "nonempty KV_VALUE_RE"
  by (simp add: KV_VALUE_RE_def)

lemma nogroup_STRING: "nogroup STRING_RE"
  by (simp add: STRING_RE_def)

lemma matches_Group:
  assumes "(s', g') \<in> set (matches (Group n a) s g)" and "nogroup a"
  shows "\<exists>x. s = x @ s' \<and> g' = (n, x) # g"
proof -
  from assms(1) obtain g1 where el: "(s', g1) \<in> set (matches a s g)"
    and g': "g' = (n, take (length s - length s') s) # g1"
    by (auto simp: matches.simps(6))
  from matches_suffix [OF el] obtain x where "s = x @ s'" by (auto simp: suffix_def)
  with g' matches_nogroup [OF assms(2) el] show ?thesis by simp
qed

lemma re_match_KV:
  assumes "re_match KV_VALUE_RE s = Some (m, g, rest)"
  shows "\<exists>p l. s = p @ l @ rest \<and> m = p @ l \<and> g = [(2, l), (1, p)]"
proof -
  from re_match_split [OF assms] have s: "s = m @ rest"
    and el: "(rest, g) \<in> set (matches KV_VALUE_RE s [])" by blast+
  from el obtain s1 g1 where
    a: "(s1, g1) \<in> set (matches (Group 1 (Seq (Chr 58) (Star (Atom is_space)))) s [])"
    and b: "(rest, g) \<in> set (matches (Group 2 STRING_RE) s1 g1)"
    by (auto simp: KV_VALUE_RE_def matches.simps(2))
  from matches_Group [OF a] obtain p where p: "s = p @ s1" "g1 = [(1, p)]" by auto
  from matches_Group [OF b nogroup_STRING] obtain l where l: "s1 = l @ rest" "g = (2, l) # g1"
    by auto
  from s p l show ?thesis by auto
qed

lemma unchanged_append:
  "unchanged_outside_values s t \<Longrightarrow> unchanged_outside_values (x @ s) (x @ t)"
  by (induction x) (auto intro: unchanged_outside_values.copied)

lemma replace_value_cases:
  assumes "group 1 m = p" and "group 2 m = l"
  shows "fst (replace_value nd translate_func m w) = p @ l \<or>
         (needs_translation (str_replace [BACKSLASH, QUOTE] [QUOTE] (butlast (tl l))) \<and>
          (\<exists>l'. fst (replace_value nd translate_func m w) = p @ l'))"
proof (cases "translate_value_literal nd l translate_func w")
  case (Pair res w')
  show ?thesis
  proof (cases res)
    case (Inl e)
    with Pair assms show ?thesis by (simp add: replace_value_def)
  next
    case (Inr r)
    with Pair have "translate_value_literal nd l translate_func w = (Inr r, w')" by simp
    from translate_value_literal_cases [OF this] Pair Inr assms show ?thesis
      by (auto simp: replace_value_def)
  qed
qed

text \<open>
  C1: the text that \<^verbatim>\<open>KV_VALUE_RE.sub(_replace_value, text)\<close> returns is the input text
  except inside the value literals matched by the pattern whose decoded value needed
  translation; the prefix of each match and all other text are unchanged.
\<close>

theorem text_unchanged_outside_values:
  "unchanged_outside_values src (fst (process_text nd translate_func src w))"
proof (induction src arbitrary: w rule: length_induct)
  case (1 s)
  let ?repl = "replace_value nd translate_func"
  show ?case
  proof (cases "re_match KV_VALUE_RE s")
    case None
    show ?thesis
    proof (cases s)
      case Nil
      with None show ?thesis
        by (simp add: process_text_def re_sub_Nil_None unchanged_outside_values.finished)
    next
      case (Cons c cs)
      with 1 have "unchanged_outside_values cs (fst (process_text nd translate_func cs w))"
        by simp
      with None Cons show ?thesis
        by (simp add: process_text_def re_sub_Cons_None unchanged_outside_values.copied)
    qed
  next
    case (Some mo)
    obtain m g rest where mo: "mo = (m, g, rest)" by (cases mo)
    with Some have rm: "re_match KV_VALUE_RE s = Some (m, g, rest)" by simp
    from re_match_KV [OF rm] obtain p l where
      s: "s = p @ l @ rest" and m: "m = p @ l" and g: "g = [(2, l), (1, p)]" by blast
    have len: "length rest < length s" by (rule re_match_nonempty [OF rm nonempty_KV])
    let ?w1 = "snd (?repl (m, g, rest) w)"
    have out: "fst (process_text nd translate_func s w) =
        fst (?repl (m, g, rest) w) @ fst (process_text nd translate_func rest ?w1)"
      by (simp add: process_text_def re_sub_Some [OF rm len])
    from 1 len have IH: "unchanged_outside_values rest (fst (process_text nd translate_func rest ?w1))"
      by simp
    have g1: "group 1 (m, g, rest) = p" and g2: "group 2 (m, g, rest) = l"
      by (simp_all add: group_def g)
    from replace_value_cases [OF g1 g2, of nd translate_func w] show ?thesis
    proof
      assume "fst (?repl (m, g, rest) w) = p @ l"
      with out s unchanged_append [OF IH, of "p @ l"] show ?thesis by simp
    next
      assume a: "needs_translation (str_replace [BACKSLASH, QUOTE] [QUOTE] (butlast (tl l))) \<and>
          (\<exists>l'. fst (?repl (m, g, rest) w) = p @ l')"
      then obtain l' where l': "fst (?repl (m, g, rest) w) = p @ l'" by blast
      from rm s m g have "re_match KV_VALUE_RE (p @ l @ rest) = Some (p @ l, [(2, l), (1, p)], rest)"
        by simp
      from unchanged_outside_values.translated [OF this conjunct1 [OF a] IH, of l'] out s l'
      show ?thesis by simp
    qed
  qed
qed

theorem text_unchanged_outside_values_witness:
  "fst (process_text no_nd answering_ok
          (ascii ''a:  '' @ [QUOTE, 0x434, QUOTE] @ ascii '', b :'' @ [QUOTE, 120, QUOTE, 10]) ())
     = ascii ''a:  '' @ [QUOTE, 111, 107, QUOTE] @ ascii '', b :'' @ [QUOTE, 120, QUOTE, 10] \<and>
   unchanged_outside_values
     (ascii ''a:  '' @ [QUOTE, 0x434, QUOTE] @ ascii '', b :'' @ [QUOTE, 120, QUOTE, 10])
     (ascii ''a:  '' @ [QUOTE, 111, 107, QUOTE] @ ascii '', b :'' @ [QUOTE, 120, QUOTE, 10])"
proof -
  have e: "fst (process_text no_nd answering_ok
          (ascii ''a:  '' @ [QUOTE, 0x434, QUOTE] @ ascii '', b :'' @ [QUOTE, 120, QUOTE, 10]) ())
     = ascii ''a:  '' @ [QUOTE, 111, 107, QUOTE] @ ascii '', b :'' @ [QUOTE, 120, QUOTE, 10]"
    by code_simp
  from text_unchanged_outside_values
         [of "ascii ''a:  '' @ [QUOTE, 0x434, QUOTE] @ ascii '', b :'' @ [QUOTE, 120, QUOTE, 10]"
             no_nd answering_ok "()"] e
  show ?thesis by simp
qed

lemma split_matches_Nil_None: "re_match r [] = None \<Longrightarrow> split_matches r gap [] = ([], gap)"
  by (subst split_matches.simps) simp

lemma split_matches_Cons_None:
  "re_match r (c # cs) = None \<Longrightarrow> split_matches r gap (c # cs) = split_matches r (gap @ [c]) cs"
  by (subst split_matches.simps) simp

lemma split_matches_Some:
  "re_match r s = Some (m, g, rest) \<Longrightarrow> length rest < length s \<Longrightarrow>
   split_matches r gap s =
     ((gap, m) # fst (split_matches r [] rest), snd (split_matches r [] rest))"
  by (subst split_matches.simps) (simp add: group0_def split: prod.splits)

lemma re_sub_mask_split:
  assumes "nonempty r"
  shows "gap @ fst (re_sub r repl_mask s masks)
           = tokens_in_place (length masks) (fst (split_matches r gap s)) (snd (split_matches r gap s)) \<and>
         snd (re_sub r repl_mask s masks) = masks @ map snd (fst (split_matches r gap s)) \<and>
         gap @ s = fragments_in_place (fst (split_matches r gap s)) (snd (split_matches r gap s))"
proof (induction s arbitrary: gap masks rule: length_induct)
  case (1 s)
  show ?case
  proof (cases "re_match r s")
    case None
    show ?thesis
    proof (cases s)
      case Nil
      with None show ?thesis by (simp add: re_sub_Nil_None split_matches_Nil_None)
    next
      case (Cons c cs)
      from Cons have "length cs < length s" by simp
      with 1 have IH: "(gap @ [c]) @ fst (re_sub r repl_mask cs masks)
           = tokens_in_place (length masks) (fst (split_matches r (gap @ [c]) cs))
               (snd (split_matches r (gap @ [c]) cs)) \<and>
         snd (re_sub r repl_mask cs masks) = masks @ map snd (fst (split_matches r (gap @ [c]) cs)) \<and>
         (gap @ [c]) @ cs = fragments_in_place (fst (split_matches r (gap @ [c]) cs))
               (snd (split_matches r (gap @ [c]) cs))"
        by blast
      from None Cons have a: "re_sub r repl_mask (c # cs) masks =
          (c # fst (re_sub r repl_mask cs masks), snd (re_sub r repl_mask cs masks))"
        by (simp add: re_sub_Cons_None)
      from None Cons have b: "split_matches r gap (c # cs) = split_matches r (gap @ [c]) cs"
        by (simp add: split_matches_Cons_None)
      from IH show ?thesis unfolding Cons a b by simp
    qed
  next
    case (Some mo)
    obtain m g rest where mo: "mo = (m, g, rest)" by (cases mo)
    with Some have rm: "re_match r s = Some (m, g, rest)" by simp
    have len: "length rest < length s" by (rule re_match_nonempty [OF rm assms])
    from re_match_split [OF rm] have s: "s = m @ rest" by blast
    have rp: "repl_mask (m, g, rest) masks = (mask_token (length masks), masks @ [m])"
      by (simp add: repl_mask_def group0_def Let_def)
    from 1 len have IH: "[] @ fst (re_sub r repl_mask rest (masks @ [m]))
           = tokens_in_place (length (masks @ [m])) (fst (split_matches r [] rest))
               (snd (split_matches r [] rest)) \<and>
         snd (re_sub r repl_mask rest (masks @ [m])) = (masks @ [m]) @ map snd (fst (split_matches r [] rest)) \<and>
         [] @ rest = fragments_in_place (fst (split_matches r [] rest)) (snd (split_matches r [] rest))"
      by blast
    have a: "re_sub r repl_mask s masks =
        (mask_token (length masks) @ fst (re_sub r repl_mask rest (masks @ [m])),
         snd (re_sub r repl_mask rest (masks @ [m])))"
      by (simp add: re_sub_Some [OF rm len] rp)
    have b: "split_matches r gap s =
        ((gap, m) # fst (split_matches r [] rest), snd (split_matches r [] rest))"
      by (rule split_matches_Some [OF rm len])
    from IH s show ?thesis unfolding a b by simp
  qed
qed

lemma nonempty_PLACEHOLDER: "nonempty (PLACEHOLDER_RE nd)"
  by (simp add: PLACEHOLDER_RE_def PAT_PERCENT_def PAT_BRACE_def PAT_TAG_def PAT_ENTITY_def
        PAT_PLURAL_def Plus_def)

lemma mask_fragments_split:
  "mask_fragments nd s =
     (tokens_in_place 0 (fst (split_matches (PLACEHOLDER_RE nd) [] s))
                        (snd (split_matches (PLACEHOLDER_RE nd) [] s)),
      map snd (fst (split_matches (PLACEHOLDER_RE nd) [] s))) \<and>
   s = fragments_in_place (fst (split_matches (PLACEHOLDER_RE nd) [] s))
                          (snd (split_matches (PLACEHOLDER_RE nd) [] s))"
  using re_sub_mask_split [OF nonempty_PLACEHOLDER, of "[]" nd s "[]"]
  by (simp add: mask_fragments_def prod_eq_iff)

lemma unmask_fragments_snoc:
  "unmask_fragments t (masks @ [v])
     = str_replace (mask_token (length masks)) v (unmask_fragments t masks)"
  by (simp add: unmask_fragments_def enumerate_append_eq)

lemma unmask_fragments_index:
  "unmask_fragments t masks
     = fold (\<lambda>i t. str_replace (mask_token i) (masks ! i) t) [0 ..< length masks] t"
proof (induction masks rule: rev_induct)
  case Nil
  then show ?case by (simp add: unmask_fragments_def)
next
  case (snoc v masks)
  have "fold (\<lambda>i t. str_replace (mask_token i) ((masks @ [v]) ! i) t) [0 ..< length masks] t
      = fold (\<lambda>i t. str_replace (mask_token i) (masks ! i) t) [0 ..< length masks] t"
    by (rule fold_cong) (simp_all add: nth_append)
  with snoc show ?case by (simp add: unmask_fragments_snoc)
qed

text \<open>
  C8: \<open>mask_fragments\<close> replaces the \<open>i\<close>-th match of \<^verbatim>\<open>PLACEHOLDER_RE\<close>, in the order
  a left-to-right scan without overlaps finds them, by the token \<^verbatim>\<open>__MASK<i>__\<close>, and
  returns the matched texts in that order; the text is the gaps with the matches in
  place. \<open>unmask_fragments\<close> replaces token \<open>0\<close> by fragment \<open>0\<close>, then token \<open>1\<close> by
  fragment \<open>1\<close>, and so on.
\<close>

theorem mask_replaces_matches_in_order:
  "mask_fragments nd s =
     (tokens_in_place 0 (fst (split_matches (PLACEHOLDER_RE nd) [] s))
                        (snd (split_matches (PLACEHOLDER_RE nd) [] s)),
      map snd (fst (split_matches (PLACEHOLDER_RE nd) [] s))) \<and>
   s = fragments_in_place (fst (split_matches (PLACEHOLDER_RE nd) [] s))
                          (snd (split_matches (PLACEHOLDER_RE nd) [] s)) \<and>
   unmask_fragments t masks
     = fold (\<lambda>i t. str_replace (mask_token i) (masks ! i) t) [0 ..< length masks] t"
  using mask_fragments_split [of nd s] unmask_fragments_index [of t masks] by simp

theorem mask_replaces_matches_in_order_witness:
  "split_matches (PLACEHOLDER_RE no_nd) [] (ascii ''a%12b{x}c'')
     = ([(ascii ''a'', ascii ''%12''), (ascii ''b'', ascii ''{x}'')], ascii ''c'') \<and>
   mask_fragments no_nd (ascii ''a%12b{x}c'')
     = (ascii ''a__MASK0__b__MASK1__c'', [ascii ''%12'', ascii ''{x}'']) \<and>
   unmask_fragments (ascii ''__MASK1__ __MASK0__'') [ascii ''%12'', ascii ''{x}'']
     = ascii ''{x} %12''"
proof -
  have a: "split_matches (PLACEHOLDER_RE no_nd) [] (ascii ''a%12b{x}c'')
     = ([(ascii ''a'', ascii ''%12''), (ascii ''b'', ascii ''{x}'')], ascii ''c'')"
    by code_simp
  have b: "tokens_in_place 0 [(ascii ''a'', ascii ''%12''), (ascii ''b'', ascii ''{x}'')] (ascii ''c'')
     = ascii ''a__MASK0__b__MASK1__c''"
    by code_simp
  have c: "fold (\<lambda>i t. str_replace (mask_token i) ([ascii ''%12'', ascii ''{x}''] ! i) t)
             [0 ..< length [ascii ''%12'', ascii ''{x}'']]
             (ascii ''__MASK1__ __MASK0__'') = ascii ''{x} %12''"
    by code_simp
  have d: "map snd [(ascii ''a'', ascii ''%12''), (ascii ''b'', ascii ''{x}'')]
             = [ascii ''%12'', ascii ''{x}'']"
    by simp
  note th = mask_replaces_matches_in_order
         [of no_nd "ascii ''a%12b{x}c''" "ascii ''__MASK1__ __MASK0__''" "[ascii ''%12'', ascii ''{x}'']"]
  from th have "mask_fragments no_nd (ascii ''a%12b{x}c'')
     = (ascii ''a__MASK0__b__MASK1__c'', [ascii ''%12'', ascii ''{x}''])"
    unfolding a fst_conv snd_conv b d by (rule conjunct1)
  moreover from th have "unmask_fragments (ascii ''__MASK1__ __MASK0__'') [ascii ''%12'', ascii ''{x}'']
     = ascii ''{x} %12''"
    unfolding c by (rule conjunct2 [THEN conjunct2])
  ultimately show ?thesis using a by blast
qed

lemma str_nat_nonempty: "str_nat n \<noteq> []"
  by (subst str_nat.simps) simp

lemma str_nat_digits: "c \<in> set (str_nat n) \<Longrightarrow> 48 \<le> c \<and> c \<le> 57"
proof (induction n rule: str_nat.induct)
  case (1 n)
  show ?case
  proof (cases "n < 10")
    case True
    with "1.prems" show ?thesis by (subst (asm) str_nat.simps) simp
  next
    case False
    from "1.prems" have "c \<in> set (str_nat (n div 10)) \<or> c = 48 + n mod 10"
      by (subst (asm) str_nat.simps) (auto simp: False)
    then show ?thesis
    proof
      assume "c \<in> set (str_nat (n div 10))"
      with "1.IH" False show ?thesis by simp
    next
      assume "c = 48 + n mod 10"
      moreover have "n mod 10 < 10" by simp
      ultimately show ?thesis by linarith
    qed
  qed
qed

lemma str_nat_inj: "str_nat m = str_nat n \<Longrightarrow> m = n"
proof (induction m arbitrary: n rule: str_nat.induct)
  case (1 m)
  show ?case
  proof (cases "m < 10")
    case m: True
    show ?thesis
    proof (cases "n < 10")
      case True
      with m "1.prems" show ?thesis by (simp add: str_nat.simps [of m] str_nat.simps [of n])
    next
      case False
      with m "1.prems" str_nat_nonempty [of "n div 10"] show ?thesis
        by (simp add: str_nat.simps [of m] str_nat.simps [of n] Cons_eq_append_conv)
    qed
  next
    case m: False
    show ?thesis
    proof (cases "n < 10")
      case True
      with m "1.prems" str_nat_nonempty [of "m div 10"] show ?thesis
        by (simp add: str_nat.simps [of m] str_nat.simps [of n] append_eq_Cons_conv)
    next
      case False
      with m "1.prems" have "str_nat (m div 10) = str_nat (n div 10)" and md: "m mod 10 = n mod 10"
        by (simp_all add: str_nat.simps [of m] str_nat.simps [of n])
      with "1.IH" m have "m div 10 = n div 10" by simp
      with md show ?thesis by (metis div_mult_mod_eq)
    qed
  qed
qed

lemma digits_prefix:
  "95 \<notin> set d \<Longrightarrow> 95 \<notin> set e \<Longrightarrow> prefix (d @ 95 # x) (e @ 95 # y) \<Longrightarrow> d = e"
proof (induction d arbitrary: e)
  case Nil
  then show ?case by (cases e) auto
next
  case (Cons c d)
  then show ?case by (cases e) auto
qed

lemma str_nat_no_underscore: "95 \<notin> set (str_nat n)"
  using str_nat_digits [of 95 n] by auto

lemma mask_token_unfold: "mask_token i = 95 # 95 # 77 # 65 # 83 # 75 # str_nat i @ [95, 95]"
  by (simp add: mask_token_def ascii_def)

lemma mask_token_nonempty: "mask_token i \<noteq> []"
  by (simp add: mask_token_unfold)

lemma mask_token_prefix_same:
  assumes "prefix (mask_token i) (mask_token j @ u)"
  shows "i = j"
proof -
  from assms have "prefix (str_nat i @ 95 # [95]) (str_nat j @ 95 # (95 # u))"
    by (simp add: mask_token_unfold)
  from digits_prefix [OF str_nat_no_underscore str_nat_no_underscore this]
  show ?thesis by (rule str_nat_inj)
qed

lemma mentions_MASK_Cons: "mentions_MASK (c # s) = (prefix [77, 65, 83, 75] (c # s) \<or> mentions_MASK s)"
  by (simp add: mentions_MASK_def ascii_def sublist_Cons_right)

lemma mentions_MASK_Nil: "\<not> mentions_MASK []"
  by (simp add: mentions_MASK_def ascii_def)

lemma mentions_MASK_append:
  "\<not> mentions_MASK (x @ y) \<Longrightarrow> \<not> mentions_MASK x \<and> \<not> mentions_MASK y"
  unfolding mentions_MASK_def by (auto simp: sublist_append)

text \<open>A text without MASK, followed by nothing or by two underscores, has no token start inside.\<close>

lemma no_token_in_text:
  assumes "\<not> mentions_MASK t" and "t \<noteq> []" and "u = [] \<or> prefix [95, 95] u"
  shows "\<not> prefix (mask_token i) (t @ u)"
proof
  assume "prefix (mask_token i) (t @ u)"
  then have p: "prefix [95, 95, 77, 65, 83, 75] (t @ u)"
    by (auto simp: mask_token_unfold prefix_def)
  from assms(2) obtain c1 t1 where t: "t = c1 # t1" by (cases t) auto
  show False
  proof (cases t1)
    case Nil
    with p t assms(3) show False by (auto simp: prefix_def)
  next
    case c2: (Cons c2 t2)
    show False
    proof (cases t2)
      case Nil
      with p t c2 assms(3) show False by (auto simp: prefix_def)
    next
      case c3: (Cons c3 t3)
      show False
      proof (cases t3)
        case Nil
        with p t c2 c3 assms(3) show False by (auto simp: prefix_def)
      next
        case c4: (Cons c4 t4)
        show False
        proof (cases t4)
          case Nil
          with p t c2 c3 c4 assms(3) show False by (auto simp: prefix_def)
        next
          case c5: (Cons c5 t5)
          show False
          proof (cases t5)
            case Nil
            with p t c2 c3 c4 c5 assms(3) show False by (auto simp: prefix_def)
          next
            case c6: (Cons c6 t6)
            with p t c2 c3 c4 c5 have "t = 95 # 95 # 77 # 65 # 83 # 75 # t6" by simp
            then have "mentions_MASK t" by (simp add: mentions_MASK_Cons)
            with assms(1) show False by simp
          qed
        qed
      qed
    qed
  qed
qed

lemma replace_skips_text:
  assumes "\<not> mentions_MASK t" and "u = [] \<or> prefix [95, 95] u"
  shows "str_replace (mask_token i) f (t @ u) = t @ str_replace (mask_token i) f u"
  using assms(1)
proof (induction t)
  case Nil
  then show ?case by simp
next
  case (Cons c t)
  from Cons.prems have nt: "\<not> mentions_MASK t" by (simp add: mentions_MASK_Cons)
  from no_token_in_text [OF Cons.prems _ assms(2), of i]
  have "\<not> prefix (mask_token i) (c # t @ u)" by simp
  from str_replace_miss [OF mask_token_nonempty this] Cons.IH [OF nt] show ?case by simp
qed


lemma replace_skips_chars:
  assumes "old \<noteq> []" and "hd old \<notin> set d"
  shows "str_replace old f (d @ v) = d @ str_replace old f v"
  using assms(2)
proof (induction d)
  case Nil
  then show ?case by simp
next
  case (Cons c d)
  from Cons.prems assms(1) have "\<not> prefix old (c # d @ v)"
    by (cases old) auto
  from str_replace_miss [OF assms(1) this] Cons show ?case by simp
qed

lemma text_then_token_start:
  assumes "\<not> mentions_MASK g" and "v = [] \<or> prefix [95, 95] v"
  shows "\<not> prefix [77, 65, 83, 75] (g @ v) \<and> \<not> prefix [95, 77, 65, 83, 75] (g @ v)"
proof (cases g)
  case Nil
  with assms(2) show ?thesis by (auto simp: prefix_def)
next
  case g1: (Cons c1 t1)
  show ?thesis
  proof (cases t1)
    case Nil
    with g1 assms(2) show ?thesis by (auto simp: prefix_def)
  next
    case g2: (Cons c2 t2)
    show ?thesis
    proof (cases t2)
      case Nil
      with g1 g2 assms(2) show ?thesis by (auto simp: prefix_def)
    next
      case g3: (Cons c3 t3)
      show ?thesis
      proof (cases t3)
        case Nil
        with g1 g2 g3 assms(2) show ?thesis by (auto simp: prefix_def)
      next
        case g4: (Cons c4 t4)
        show ?thesis
        proof (cases t4)
          case Nil
          with g1 g2 g3 g4 assms show ?thesis
            by (auto simp: prefix_def mentions_MASK_Cons)
        next
          case g5: (Cons c5 t5)
          with g1 g2 g3 g4 assms(1) show ?thesis
            by (auto simp: mentions_MASK_Cons)
        qed
      qed
    qed
  qed
qed

lemma replace_skips_token:
  assumes ij: "i \<noteq> j"
    and u1: "\<not> prefix [77, 65, 83, 75] u" and u2: "\<not> prefix [95, 77, 65, 83, 75] u"
  shows "str_replace (mask_token i) f (mask_token j @ u) = mask_token j @ str_replace (mask_token i) f u"
proof -
  let ?T = "mask_token i"
  let ?r = "str_replace ?T f"
  let ?d = "str_nat j"
  have ne: "?T \<noteq> []" by (rule mask_token_nonempty)
  have hd: "hd ?T = 95" by (simp add: mask_token_unfold)
  have p0: "\<not> prefix ?T (95 # 95 # 77 # 65 # 83 # 75 # ?d @ 95 # 95 # u)"
    using mask_token_prefix_same [of i j u] ij by (auto simp: mask_token_unfold [of j])
  have p1: "\<not> prefix ?T (95 # 77 # 65 # 83 # 75 # ?d @ 95 # 95 # u)"
    by (simp add: mask_token_unfold [of i])
  have p2: "\<not> prefix ?T (77 # 65 # 83 # 75 # ?d @ 95 # 95 # u)"
    by (simp add: mask_token_unfold [of i])
  have p3: "\<not> prefix ?T (65 # 83 # 75 # ?d @ 95 # 95 # u)"
    by (simp add: mask_token_unfold [of i])
  have p4: "\<not> prefix ?T (83 # 75 # ?d @ 95 # 95 # u)"
    by (simp add: mask_token_unfold [of i])
  have p5: "\<not> prefix ?T (75 # ?d @ 95 # 95 # u)"
    by (simp add: mask_token_unfold [of i])
  have p6: "\<not> prefix ?T (95 # 95 # u)"
  proof
    assume "prefix ?T (95 # 95 # u)"
    then have "prefix (77 # 65 # 83 # 75 # str_nat i @ [95, 95]) u"
      by (simp add: mask_token_unfold [of i])
    then have "prefix [77, 65, 83, 75] u" by (auto simp: prefix_def)
    with u1 show False by simp
  qed
  have p7: "\<not> prefix ?T (95 # u)"
  proof
    assume "prefix ?T (95 # u)"
    then have "prefix (95 # 77 # 65 # 83 # 75 # str_nat i @ [95, 95]) u"
      by (simp add: mask_token_unfold [of i])
    then have "prefix [95, 77, 65, 83, 75] u" by (auto simp: prefix_def)
    with u2 show False by simp
  qed
  have dg: "hd ?T \<notin> set ?d" using str_nat_no_underscore [of j] hd by simp
  have "?r (mask_token j @ u) = ?r (95 # 95 # 77 # 65 # 83 # 75 # ?d @ 95 # 95 # u)"
    by (simp add: mask_token_unfold [of j])
  also have "\<dots> = 95 # 95 # 77 # 65 # 83 # 75 # ?r (?d @ 95 # 95 # u)"
    by (simp only: str_replace_miss [OF ne p0] str_replace_miss [OF ne p1]
          str_replace_miss [OF ne p2] str_replace_miss [OF ne p3]
          str_replace_miss [OF ne p4] str_replace_miss [OF ne p5])
  also have "?r (?d @ 95 # 95 # u) = ?d @ ?r (95 # 95 # u)"
    by (rule replace_skips_chars [OF ne dg])
  also have "?r (95 # 95 # u) = 95 # 95 # ?r u"
    by (simp only: str_replace_miss [OF ne p6] str_replace_miss [OF ne p7])
  finally show ?thesis by (simp add: mask_token_unfold [of j])
qed

lemma tokens_in_place_start:
  assumes "\<forall>p \<in> set ps. \<not> mentions_MASK (fst p)" and "\<not> mentions_MASK tail"
  shows "\<not> prefix [77, 65, 83, 75] (tokens_in_place k ps tail) \<and>
         \<not> prefix [95, 77, 65, 83, 75] (tokens_in_place k ps tail)"
proof (cases ps)
  case Nil
  with text_then_token_start [OF assms(2), of "[]"] show ?thesis by simp
next
  case (Cons p ps')
  obtain g fr where p: "p = (g, fr)" by (cases p)
  with Cons assms(1) have "\<not> mentions_MASK g" by simp
  from text_then_token_start [OF this, of "mask_token k @ tokens_in_place (Suc k) ps' tail"]
  show ?thesis unfolding Cons p by (simp add: mask_token_unfold)
qed

lemma replace_leaves_later_tokens:
  assumes "\<forall>p \<in> set ps. \<not> mentions_MASK (fst p)" and "\<not> mentions_MASK tail" and "i < k"
  shows "str_replace (mask_token i) f (tokens_in_place k ps tail) = tokens_in_place k ps tail"
  using assms(1,3)
proof (induction ps arbitrary: k)
  case Nil
  from replace_skips_text [OF assms(2), of "[]" i f] show ?case
    by (simp add: str_replace_Nil mask_token_nonempty)
next
  case (Cons p ps)
  obtain g fr where p: "p = (g, fr)" by (cases p)
  let ?W = "tokens_in_place (Suc k) ps tail"
  from Cons.prems p have g: "\<not> mentions_MASK g" and rest: "\<forall>p \<in> set ps. \<not> mentions_MASK (fst p)"
    by simp_all
  from Cons.prems have ik: "i \<noteq> k" "i < Suc k" by simp_all
  have st: "\<not> prefix [77, 65, 83, 75] ?W \<and> \<not> prefix [95, 77, 65, 83, 75] ?W"
    by (rule tokens_in_place_start [OF rest assms(2)])
  have "str_replace (mask_token i) f (g @ mask_token k @ ?W)
          = g @ str_replace (mask_token i) f (mask_token k @ ?W)"
    by (rule replace_skips_text [OF g]) (simp add: mask_token_unfold)
  also have "str_replace (mask_token i) f (mask_token k @ ?W)
          = mask_token k @ str_replace (mask_token i) f ?W"
    using st by (intro replace_skips_token [OF ik(1)]) simp_all
  also have "str_replace (mask_token i) f ?W = ?W"
    by (rule Cons.IH [OF rest ik(2)])
  finally show ?case by (simp add: p)
qed

lemma pieces_without_MASK:
  "\<not> mentions_MASK (fragments_in_place ps tail) \<Longrightarrow>
   (\<forall>p \<in> set ps. \<not> mentions_MASK (fst p)) \<and> \<not> mentions_MASK tail"
proof (induction ps)
  case Nil
  then show ?case by simp
next
  case (Cons p ps)
  obtain g fr where p: "p = (g, fr)" by (cases p)
  from Cons.prems p have a: "\<not> mentions_MASK (g @ fr @ fragments_in_place ps tail)" by simp
  from mentions_MASK_append [OF a] have g: "\<not> mentions_MASK g"
    and b: "\<not> mentions_MASK (fr @ fragments_in_place ps tail)" by simp_all
  from mentions_MASK_append [OF b] have "\<not> mentions_MASK (fragments_in_place ps tail)" by simp
  from Cons.IH [OF this] g p show ?case by simp
qed

lemma unmask_tokens_in_place:
  assumes "\<not> mentions_MASK (A @ fragments_in_place ps tail)"
  shows "fold (\<lambda>(i, val) s. str_replace (mask_token i) val s) (enumerate i (map snd ps))
           (A @ tokens_in_place i ps tail)
         = A @ fragments_in_place ps tail"
  using assms
proof (induction ps arbitrary: i A)
  case Nil
  then show ?case by simp
next
  case (Cons p ps)
  obtain g fr where p: "p = (g, fr)" by (cases p)
  let ?W = "tokens_in_place (Suc i) ps tail"
  from Cons.prems p have all: "\<not> mentions_MASK ((A @ g) @ fr @ fragments_in_place ps tail)" by simp
  from mentions_MASK_append [OF all] have Ag: "\<not> mentions_MASK (A @ g)"
    and b: "\<not> mentions_MASK (fr @ fragments_in_place ps tail)" by simp_all
  from mentions_MASK_append [OF b] have "\<not> mentions_MASK (fragments_in_place ps tail)" by simp
  from pieces_without_MASK [OF this] have clean: "\<forall>p \<in> set ps. \<not> mentions_MASK (fst p)"
    "\<not> mentions_MASK tail" by simp_all
  have "str_replace (mask_token i) fr ((A @ g) @ mask_token i @ ?W)
          = (A @ g) @ str_replace (mask_token i) fr (mask_token i @ ?W)"
    by (rule replace_skips_text [OF Ag]) (simp add: mask_token_unfold)
  also have "str_replace (mask_token i) fr (mask_token i @ ?W)
          = fr @ str_replace (mask_token i) fr ?W"
    by (rule str_replace_hit [OF mask_token_nonempty])
  also have "str_replace (mask_token i) fr ?W = ?W"
    by (rule replace_leaves_later_tokens [OF clean]) simp
  finally have step: "str_replace (mask_token i) fr (A @ g @ mask_token i @ ?W)
          = (A @ g @ fr) @ ?W" by simp
  from Cons.prems p have "\<not> mentions_MASK ((A @ g @ fr) @ fragments_in_place ps tail)" by simp
  from Cons.IH [OF this, of "Suc i"] step show ?case by (simp add: p)
qed

text \<open>
  C2, as amended: for every string that does not contain the letters \<^verbatim>\<open>MASK\<close> in a row,
  unmasking the masked string with the recorded fragments gives the string back.
\<close>

theorem mask_round_trip:
  assumes "\<not> mentions_MASK s"
  shows "unmask_fragments (fst (mask_fragments nd s)) (snd (mask_fragments nd s)) = s"
proof -
  let ?ps = "fst (split_matches (PLACEHOLDER_RE nd) [] s)"
  let ?tail = "snd (split_matches (PLACEHOLDER_RE nd) [] s)"
  from mask_fragments_split [of nd s] have m: "mask_fragments nd s =
      (tokens_in_place 0 ?ps ?tail, map snd ?ps)" and s: "s = fragments_in_place ?ps ?tail"
    by blast+
  from assms s have "\<not> mentions_MASK ([] @ fragments_in_place ?ps ?tail)" by simp
  from unmask_tokens_in_place [OF this, of 0] s show ?thesis
    by (simp add: m unmask_fragments_def)
qed

theorem mask_round_trip_witness:
  "\<not> mentions_MASK (ascii ''Hi %1 <b>{x}</b>'') \<and>
   unmask_fragments (fst (mask_fragments no_nd (ascii ''Hi %1 <b>{x}</b>'')))
                    (snd (mask_fragments no_nd (ascii ''Hi %1 <b>{x}</b>'')))
     = ascii ''Hi %1 <b>{x}</b>''"
proof -
  have a: "\<not> mentions_MASK (ascii ''Hi %1 <b>{x}</b>'')" by code_simp
  from mask_round_trip [OF a, of no_nd] a show ?thesis by blast
qed

text \<open>
  C2 as stated fails: a string that already holds a token collides with the token
  of its own placeholder.
\<close>

theorem mask_round_trip_counterexample:
  "unmask_fragments (fst (mask_fragments no_nd (ascii ''__MASK0__%1'')))
                    (snd (mask_fragments no_nd (ascii ''__MASK0__%1'')))
     = ascii ''%1%1'' \<and>
   ascii ''%1%1'' \<noteq> ascii ''__MASK0__%1''"
  by code_simp

lemma hello_decoded:
  "decode_literal hello_literal = Inr (butlast (tl hello_literal))"
proof -
  have a: "startswith hello_literal [QUOTE]" by code_simp
  have b: "endswith hello_literal [QUOTE]" by code_simp
  have c: "QUOTE \<notin> set (butlast (tl hello_literal))" by code_simp
  from a b unescape_no_quote [OF c] show ?thesis by (simp add: decode_literal_def)
qed

lemma hello_needs: "needs_translation (butlast (tl hello_literal))"
  by code_simp

lemma hello_mask:
  "mask_fragments nd (butlast (tl hello_literal)) = (hello_masked, [ascii ''%1'', ascii ''{count}''])"
  by code_simp

text \<open>
  C6 as stated fails: a translator that answers \<^verbatim>\<open>ok\<close> drops both tokens, and the
  output has neither \<^verbatim>\<open>%1\<close> nor \<^verbatim>\<open>{count}\<close>.
\<close>

theorem placeholders_lost_counterexample:
  "translate_value_literal no_nd hello_literal answering_ok () = (Inr (QUOTE # ascii ''ok'' @ [QUOTE]), ()) \<and>
   \<not> sublist (ascii ''%1'') (QUOTE # ascii ''ok'' @ [QUOTE]) \<and>
   \<not> sublist (ascii ''{count}'') (QUOTE # ascii ''ok'' @ [QUOTE])"
  by code_simp

lemma mentions_MASK_sep:
  assumes x: "\<not> mentions_MASK x" and y: "\<not> mentions_MASK y"
    and sep: "sep \<noteq> []" "77 \<notin> set sep" "65 \<notin> set sep" "83 \<notin> set sep" "75 \<notin> set sep"
  shows "\<not> mentions_MASK (x @ sep @ y)"
proof
  let ?M = "[77, 65, 83, 75] :: nat list"
  assume "mentions_MASK (x @ sep @ y)"
  then have "sublist ?M (x @ sep @ y)" by (simp add: mentions_MASK_def ascii_def)
  then consider "sublist ?M x" | "sublist ?M (sep @ y)"
    | xs1 xs2 where "?M = xs1 @ xs2" "suffix xs1 x" "prefix xs2 (sep @ y)"
    by (auto simp: sublist_append)
  then show False
  proof cases
    case 1
    with x show False by (simp add: mentions_MASK_def ascii_def)
  next
    case 2
    then consider "sublist ?M sep" | "sublist ?M y"
      | ys1 ys2 where "?M = ys1 @ ys2" "suffix ys1 sep" "prefix ys2 y"
      by (auto simp: sublist_append)
    then show False
    proof cases
      case 1
      from set_mono_sublist [OF this] sep show False by auto
    next
      case 2
      with y show False by (simp add: mentions_MASK_def ascii_def)
    next
      case 3
      show False
      proof (cases "ys1 = []")
        case True
        with 3 have "prefix ?M y" by simp
        then have "sublist ?M y" by (rule prefix_imp_sublist)
        with y show False by (simp add: mentions_MASK_def ascii_def)
      next
        case False
        from 3(2) have "set ys1 \<subseteq> set sep" by (auto simp: suffix_def)
        moreover from 3(1) have "set ys1 \<subseteq> {77, 65, 83, 75}"
          by (metis set_append Un_upper1 list.simps(15) empty_set insert_commute)
        moreover from False obtain z where "z \<in> set ys1" by (cases ys1) auto
        ultimately show False using sep by blast
      qed
    qed
  next
    case 3
    show False
    proof (cases "xs2 = []")
      case True
      with 3 have "suffix ?M x" by simp
      then have "sublist ?M x" by (rule suffix_imp_sublist)
      with x show False by (simp add: mentions_MASK_def ascii_def)
    next
      case False
      then obtain m xs2' where xs2: "xs2 = m # xs2'" by (cases xs2) auto
      from sep(1) obtain s1 sep' where s: "sep = s1 # sep'" by (cases sep) auto
      from 3(3) xs2 s have "m = s1" by simp
      moreover from 3(1) xs2 have "m \<in> set ?M" by (metis in_set_conv_decomp)
      ultimately show False using sep s by auto
    qed
  qed
qed


lemma escape_append:
  "str_replace [QUOTE] [BACKSLASH, QUOTE] (x @ y)
     = str_replace [QUOTE] [BACKSLASH, QUOTE] x @ str_replace [QUOTE] [BACKSLASH, QUOTE] y"
  by (simp add: escape_concat)

lemma escape_placeholders:
  "str_replace [QUOTE] [BACKSLASH, QUOTE] (ascii ''%1'') = ascii ''%1''"
  "str_replace [QUOTE] [BACKSLASH, QUOTE] (ascii ''{count}'') = ascii ''{count}''"
  by (simp_all add: escape_concat ascii_def)

lemma unmask_two_tokens:
  assumes "\<not> mentions_MASK a" and "\<not> mentions_MASK b" and "\<not> mentions_MASK c"
  shows "unmask_fragments (a @ mask_token 0 @ b @ mask_token 1 @ c) [ascii ''%1'', ascii ''{count}'']
           = a @ ascii ''%1'' @ b @ ascii ''{count}'' @ c"
proof -
  have bc: "\<not> mentions_MASK (b @ ascii ''{count}'' @ c)"
    by (rule mentions_MASK_sep [OF assms(2,3)]) (simp_all add: ascii_def)
  have "\<not> mentions_MASK (a @ ascii ''%1'' @ b @ ascii ''{count}'' @ c)"
    by (rule mentions_MASK_sep [OF assms(1) bc]) (simp_all add: ascii_def)
  then have "\<not> mentions_MASK ([] @ fragments_in_place [(a, ascii ''%1''), (b, ascii ''{count}'')] c)"
    by simp
  from unmask_tokens_in_place [OF this, of 0] show ?thesis
    by (simp add: unmask_fragments_def)
qed

text \<open>
  C6, as amended: masking hands the translator a text with \<^verbatim>\<open>__MASK0__\<close> for
  \<^verbatim>\<open>%1\<close> and \<^verbatim>\<open>__MASK1__\<close> for \<^verbatim>\<open>{count}\<close>. Whenever the reply keeps the two tokens in
  that order and the text around them does not contain \<^verbatim>\<open>MASK\<close>, the output is that
  text, quote-escaped, with \<^verbatim>\<open>%1\<close> and \<^verbatim>\<open>{count}\<close> verbatim in the tokens' places.
\<close>

theorem placeholders_kept:
  assumes reply: "translate_func hello_masked w = (Inr (a @ mask_token 0 @ b @ mask_token 1 @ c), w')"
    and clean: "\<not> mentions_MASK a" "\<not> mentions_MASK b" "\<not> mentions_MASK c"
  shows "translate_value_literal nd hello_literal translate_func w =
           (Inr ([QUOTE] @ str_replace [QUOTE] [BACKSLASH, QUOTE] a @ ascii ''%1'' @
                 str_replace [QUOTE] [BACKSLASH, QUOTE] b @ ascii ''{count}'' @
                 str_replace [QUOTE] [BACKSLASH, QUOTE] c @ [QUOTE]), w')"
proof -
  have "translate_value_literal nd hello_literal translate_func w =
      (Inr (encode_literal (unmask_fragments (a @ mask_token 0 @ b @ mask_token 1 @ c)
              [ascii ''%1'', ascii ''{count}''])), w')"
    by (simp add: translate_value_literal_def hello_decoded hello_needs hello_mask reply)
  also have "encode_literal (unmask_fragments (a @ mask_token 0 @ b @ mask_token 1 @ c)
              [ascii ''%1'', ascii ''{count}''])
      = [QUOTE] @ str_replace [QUOTE] [BACKSLASH, QUOTE] a @ ascii ''%1'' @
                 str_replace [QUOTE] [BACKSLASH, QUOTE] b @ ascii ''{count}'' @
                 str_replace [QUOTE] [BACKSLASH, QUOTE] c @ [QUOTE]"
    by (simp only: unmask_two_tokens [OF clean] encode_literal_def Let_def escape_append
          escape_placeholders append_assoc)
  finally show ?thesis .
qed

theorem placeholders_kept_witness:
  "translate_value_literal no_nd hello_literal english_backend ()
     = (Inr ([QUOTE] @ ascii ''Hello %1, you have {count} items'' @ [QUOTE]), ())"
proof -
  have r: "english_backend hello_masked ()
      = (Inr (ascii ''Hello '' @ mask_token 0 @ ascii '', you have '' @ mask_token 1 @ ascii '' items''), ())"
    by code_simp
  have a: "\<not> mentions_MASK (ascii ''Hello '')" by code_simp
  have b: "\<not> mentions_MASK (ascii '', you have '')" by code_simp
  have c: "\<not> mentions_MASK (ascii '' items'')" by code_simp
  have e: "[QUOTE] @ str_replace [QUOTE] [BACKSLASH, QUOTE] (ascii ''Hello '') @ ascii ''%1'' @
                 str_replace [QUOTE] [BACKSLASH, QUOTE] (ascii '', you have '') @ ascii ''{count}'' @
                 str_replace [QUOTE] [BACKSLASH, QUOTE] (ascii '' items'') @ [QUOTE]
           = [QUOTE] @ ascii ''Hello %1, you have {count} items'' @ [QUOTE]"
    by code_simp
  from placeholders_kept
         [where translate_func = english_backend and a = "ascii ''Hello ''"
            and b = "ascii '', you have ''" and c = "ascii '' items''" and nd = no_nd,
          OF r a b c]
  show ?thesis unfolding e .
qed

end
